theory Spec2Isabelle
  imports Complex_Main "HOL-Library.Multiset"
begin

section \<open>Task distributor: scripts/split\_tasks\_to\_projects.py\<close>

text \<open>
  The script moves the tasks of one project onto several projects of the same account.
  Its own logic is the tail of \<open>main\<close>: the early return on an empty task list, the
  construction of \<open>projects_to_use\<close>, the shuffle, the partition loop that fills the
  dict \<open>distribution\<close>, and the loop that issues one update per moved task.

  Record ids are Python strings. The answers of the org to the queries and to the create
  commands, the draws of the random generator and today's date are inputs of the model
  (the record \<open>world\<close> below). The model covers the runs in which every \<open>sf\<close> command
  exits with status 0; informational \<open>print\<close> calls are left out, the dry-run messages
  that stand for a create or an update are kept as events.
\<close>

subsection \<open>Python helpers\<close>

datatype error = ZeroDivisionError | IndexError | SystemExit string

text \<open>\<open>xs[a:b]\<close> for \<open>0 \<le> a \<le> b\<close>: a slice is clipped to the list, it never raises.\<close>

definition slice :: "'a list \<Rightarrow> nat \<Rightarrow> nat \<Rightarrow> 'a list" where
  "slice xs a b = take (b - a) (drop a xs)"

text \<open>
  A dict keeps insertion order; \<open>d[k] = v\<close> replaces the value of a key that is present
  where it stands, and appends a new key at the end. \<open>d.get(k)\<close> is \<open>map_of d k\<close>.
\<close>

fun dict_set :: "('k \<times> 'v) list \<Rightarrow> 'k \<Rightarrow> 'v \<Rightarrow> ('k \<times> 'v) list" where
  "dict_set [] k v = [(k, v)]"
| "dict_set ((k', v') # d) k v =
     (if k' = k then (k, v) # d else (k', v') # dict_set d k v)"

definition enumerate_from0 :: "'a list \<Rightarrow> (nat \<times> 'a) list" where
  "enumerate_from0 xs = zip [0..<length xs] xs"

text \<open>\<open>x[i], x[j] = x[j], x[i]\<close>: both reads happen before the two writes.\<close>

definition swap :: "'a list \<Rightarrow> nat \<Rightarrow> nat \<Rightarrow> 'a list" where
  "swap xs i j = (xs[i := xs ! j])[j := xs ! i]"

text \<open>
  \<open>random.shuffle(x)\<close> of the standard library: for \<open>i\<close> from \<open>len(x) - 1\<close> down to 1,
  draw \<open>j = randbelow(i + 1)\<close> and swap places \<open>i\<close> and \<open>j\<close>. The generator is the
  function \<open>rnd\<close>; the draw at place \<open>i\<close> is \<open>rnd i mod (i + 1)\<close>.
\<close>

fun shuffle_down :: "(nat \<Rightarrow> nat) \<Rightarrow> nat \<Rightarrow> 'a list \<Rightarrow> 'a list" where
  "shuffle_down rnd 0 xs = xs"
| "shuffle_down rnd (Suc i) xs =
     shuffle_down rnd i (swap xs (Suc i) (rnd (Suc i) mod (Suc i + 1)))"

definition shuffle :: "(nat \<Rightarrow> nat) \<Rightarrow> 'a list \<Rightarrow> 'a list" where
  "shuffle rnd xs = shuffle_down rnd (length xs - 1) xs"

subsection \<open>The partition loop (lines 170 to 180)\<close>

text \<open>
  \<open>for i, project_id in enumerate(projects_to_use)\<close>: the loop state is \<open>task_idx\<close> and
  the dict \<open>distribution\<close>.
\<close>

fun partition_loop ::
  "nat \<Rightarrow> nat \<Rightarrow> 't list \<Rightarrow> (nat \<times> 'p) list \<Rightarrow> nat \<Rightarrow> ('p \<times> 't list) list
     \<Rightarrow> ('p \<times> 't list) list" where
  "partition_loop tasks_per_project remainder tasks [] task_idx distribution = distribution"
| "partition_loop tasks_per_project remainder tasks ((i, project_id) # rest) task_idx distribution =
     (let count = tasks_per_project + (if i < remainder then 1 else 0)
      in partition_loop tasks_per_project remainder tasks rest (task_idx + count)
           (dict_set distribution project_id (slice tasks task_idx (task_idx + count))))"

text \<open>
  The shuffle, the two divisions and the loop. \<open>len(tasks) // len(projects_to_use)\<close> raises
  ZeroDivisionError on an empty project list.
\<close>

definition distribute ::
  "(nat \<Rightarrow> nat) \<Rightarrow> 't list \<Rightarrow> 'p list \<Rightarrow> error + ('p \<times> 't list) list" where
  "distribute rnd tasks0 projects_to_use =
     (let tasks = shuffle rnd tasks0 in
      if length projects_to_use = 0 then Inl ZeroDivisionError
      else
        let tasks_per_project = length tasks div length projects_to_use;
            remainder = length tasks mod length projects_to_use
        in Inr (partition_loop tasks_per_project remainder tasks
                  (enumerate_from0 projects_to_use) 0 []))"

subsection \<open>The script's records, arguments and environment\<close>

text \<open>
  A task as the query of line 112 returns it (\<open>Id\<close>, \<open>Name\<close>, \<open>Project__c\<close>), a project
  as the queries of lines 101 and 120 return it.
\<close>

record task =
  task_Id :: string
  task_Name :: string
  task_Project :: string

record project =
  project_Id :: string
  project_Name :: string
  project_Account :: string

text \<open>The parsed command line.\<close>

record args =
  org :: string
  project_id :: string
  num_projects :: int
  dry_run :: bool

text \<open>
  What the run reads from outside: the records each SOQL query returns, the id the org
  returns for a created project (by the values sent: name, account, status), the date,
  and the random draws (\<open>random.choice\<close> for the status of the project with suffix
  number \<open>n\<close>, \<open>randbelow\<close> inside \<open>random.shuffle\<close>).
\<close>

record world =
  q_project :: "project list"
  q_account_names :: "string list"
  q_tasks :: "task list"
  q_existing_projects :: "project list"
  create_record_id :: "string \<Rightarrow> string \<Rightarrow> string \<Rightarrow> string"
  today :: string
  status_draw :: "nat \<Rightarrow> nat"
  shuffle_draw :: "nat \<Rightarrow> nat"

text \<open>
  What the run does to the org, in order: a create command, an update command, or the
  dry-run message printed in its place.
\<close>

datatype event =
    Create_project string string string
  | Would_create_project string string string
  | Update_task string string
  | Would_move_task string string string

record run =
  projects_to_use :: "string list"
  distribution :: "(string \<times> task list) list"
  events :: "event list"
  updates_made :: nat

definition initial_run :: run where
  "initial_run = \<lparr>projects_to_use = [], distribution = [], events = [], updates_made = 0\<rparr>"

definition PROJECT_STATUSES :: "string list" where
  "PROJECT_STATUSES =
     [''Not Started'', ''R&D'', ''Proposal'', ''Development'', ''Q&A'', ''Deployed'', ''Cancelled'']"

text \<open>The decimal digits of a number, as an f-string prints it.\<close>

fun show_nat :: "nat \<Rightarrow> string" where
  "show_nat n =
     (if n < 10 then [char_of (48 + n)]
      else show_nat (n div 10) @ [char_of (48 + n mod 10)])"

declare show_nat.simps [simp del]

subsection \<open>Building the project list (lines 119 to 165)\<close>

text \<open>
  The body both creation loops share, for the project with suffix number \<open>n\<close>
  (\<open>i + 2\<close> in the first loop, \<open>i + 1\<close> in the second): it appends the new id to
  \<open>projects_to_use\<close>, the fake id \<open>DRYPROJ<n>\<close> in a dry run.
\<close>

definition create_project_step ::
  "args \<Rightarrow> world \<Rightarrow> string \<Rightarrow> string \<Rightarrow> nat \<Rightarrow> string list \<times> event list
     \<Rightarrow> string list \<times> event list" where
  "create_project_step a w account_name account_id n st =
     (let project_name = account_name @ '' Project '' @ today w @ '' - '' @ show_nat n;
          status = PROJECT_STATUSES ! (status_draw w n mod length PROJECT_STATUSES)
      in if dry_run a
         then (fst st @ [''DRYPROJ'' @ show_nat n],
               snd st @ [Would_create_project project_name account_id status])
         else (fst st @ [create_record_id w project_name account_id status],
               snd st @ [Create_project project_name account_id status]))"

text \<open>\<open>for i in range(projects_needed)\<close>, lines 129 to 143.\<close>

definition create_needed ::
  "args \<Rightarrow> world \<Rightarrow> string \<Rightarrow> string \<Rightarrow> int \<Rightarrow> string list \<times> event list
     \<Rightarrow> string list \<times> event list" where
  "create_needed a w account_name account_id projects_needed st =
     fold (\<lambda>i. create_project_step a w account_name account_id (i + 2))
       [0..<nat projects_needed] st"

text \<open>\<open>for proj in existing_projects\<close>, lines 146 to 148.\<close>

definition use_existing :: "args \<Rightarrow> project list \<Rightarrow> string list \<Rightarrow> string list" where
  "use_existing a existing_projects ptu =
     fold (\<lambda>proj acc. if project_Id proj \<noteq> project_id a then acc @ [project_Id proj] else acc)
       existing_projects ptu"

text \<open>\<open>while len(projects_to_use) < args.num_projects\<close>, lines 150 to 165.\<close>

function create_missing ::
  "args \<Rightarrow> world \<Rightarrow> string \<Rightarrow> string \<Rightarrow> string list \<times> event list
     \<Rightarrow> string list \<times> event list" where
  "create_missing a w account_name account_id st =
     (if int (length (fst st)) < num_projects a
      then create_missing a w account_name account_id
             (create_project_step a w account_name account_id (length (fst st) + 1) st)
      else st)"
  by pat_completeness auto
termination
  by (relation "measure (\<lambda>(a, w, account_name, account_id, st).
                   nat (num_projects a - int (length (fst st))))")
     (auto simp: create_project_step_def Let_def)

declare create_missing.simps [simp del]

subsection \<open>Moving the tasks (lines 182 to 192)\<close>

text \<open>The inner loop over the tasks of one project; the state is the events and \<open>updates_made\<close>.\<close>

fun move_tasks :: "args \<Rightarrow> string \<Rightarrow> task list \<Rightarrow> event list \<times> nat \<Rightarrow> event list \<times> nat" where
  "move_tasks a pid [] st = st"
| "move_tasks a pid (t # rest) st =
     (if dry_run a
      then move_tasks a pid rest (fst st @ [Would_move_task (task_Id t) (task_Name t) pid], snd st)
      else move_tasks a pid rest (fst st @ [Update_task (task_Id t) pid], snd st + 1))"

text \<open>\<open>for project_id, project_tasks in distribution.items()\<close>, skipping the original project.\<close>

fun update_loop ::
  "args \<Rightarrow> (string \<times> task list) list \<Rightarrow> event list \<times> nat \<Rightarrow> event list \<times> nat" where
  "update_loop a [] st = st"
| "update_loop a ((pid, project_tasks) # rest) st =
     (if pid = project_id a then update_loop a rest st
      else update_loop a rest (move_tasks a pid project_tasks st))"

subsection \<open>The script\<close>

text \<open>
  Lines 119 to 165 as one step: \<open>projects_to_use\<close> starts as the list of the original
  project alone; then either new projects are created, or the other existing projects of
  the account are used and the missing ones created. The result is the project list and
  the events so far.
\<close>

definition build_projects :: "args \<Rightarrow> world \<Rightarrow> string \<Rightarrow> string \<Rightarrow> string list \<times> event list" where
  "build_projects a w account_name account_id =
     (let existing_projects = q_existing_projects w;
          projects_needed = num_projects a - int (length existing_projects)
      in if projects_needed > 0
         then create_needed a w account_name account_id projects_needed ([project_id a], [])
         else create_missing a w account_name account_id
                (use_existing a existing_projects [project_id a], []))"

text \<open>
  \<open>main\<close> from line 101 on: the project and its account are looked up
  (\<open>sys.exit\<close> when the project is not found, IndexError when the account query is
  empty), an empty task list ends the run at line 117, otherwise the project list is
  built, the tasks are distributed and the moves are issued.
\<close>

definition main :: "args \<Rightarrow> world \<Rightarrow> error + run" where
  "main a w =
     (case q_project w of
        [] \<Rightarrow> Inl (SystemExit (''Project '' @ project_id a @ '' not found.''))
      | original_project # _ \<Rightarrow>
          (case q_account_names w of
             [] \<Rightarrow> Inl IndexError
           | account_name # _ \<Rightarrow>
               if length (q_tasks w) = 0 then Inr initial_run
               else
                 let built = build_projects a w account_name (project_Account original_project)
                 in (case distribute (shuffle_draw w) (q_tasks w) (fst built) of
                       Inl e \<Rightarrow> Inl e
                     | Inr d \<Rightarrow>
                         let moved = update_loop a d (snd built, 0)
                         in Inr \<lparr>projects_to_use = fst built, distribution = d,
                                 events = fst moved, updates_made = snd moved\<rparr>)))"

section \<open>Owner selector: scripts/generate\_project\_tasks.py\<close>

text \<open>
  \<open>pick_owner\<close> builds the list of eligible candidates, normalises their weights and
  draws one with \<open>random.choices\<close>; it decrements \<open>max_william["remaining"]\<close> when the
  user id of the choice is William's. The owner dicts have the keys \<open>user_id\<close>,
  \<open>contact_id\<close> and \<open>account_id\<close>, each a string or \<open>None\<close>; a candidate is such
  a dict with a \<open>weight\<close>. Kevin and William are \<open>None\<close> when no user was found.
  Python computes the weights with IEEE doubles; the model computes with exact real
  numbers, so rounding is not modelled and the model may pick another index than the
  code when \<open>u\<close> falls on a rounded cumulative weight. The properties proved below use
  only that the choice is an element of the candidate list, which holds for every index
  the search can return. The random value \<open>u\<close> of a call is an argument.
\<close>

record owner_info =
  user_id :: "string option"
  contact_id :: "string option"
  account_id :: "string option"

record candidate = owner_info +
  weight :: real

text \<open>\<open>{"weight": w, **info}\<close>\<close>

definition with_weight :: "real \<Rightarrow> owner_info \<Rightarrow> candidate" where
  "with_weight w info =
     \<lparr>user_id = user_id info, contact_id = contact_id info, account_id = account_id info,
      weight = w\<rparr>"

subsection \<open>\<open>random.choices\<close> of the standard library\<close>

text \<open>\<open>itertools.accumulate\<close>: the running sums, starting from \<open>acc\<close>.\<close>

fun accumulate_from :: "real \<Rightarrow> real list \<Rightarrow> real list" where
  "accumulate_from acc [] = []"
| "accumulate_from acc (w # ws) = (acc + w) # accumulate_from (acc + w) ws"

definition accumulate :: "real list \<Rightarrow> real list" where
  "accumulate ws = accumulate_from 0 ws"

text \<open>\<open>bisect.bisect_right(a, x, lo, hi)\<close>: binary search between \<open>lo\<close> and \<open>hi\<close>.\<close>

function bisect :: "real list \<Rightarrow> real \<Rightarrow> nat \<Rightarrow> nat \<Rightarrow> nat" where
  "bisect a x lo hi =
     (if lo < hi
      then (let mid = (lo + hi) div 2
            in if x < a ! mid then bisect a x lo mid else bisect a x (mid + 1) hi)
      else lo)"
  by pat_completeness auto
termination
  by (relation "measure (\<lambda>(a, x, lo, hi). hi - lo)") auto

declare bisect.simps [simp del]

text \<open>
  \<open>random.choices(population, weights=weights, k=1)[0]\<close>, with \<open>u\<close> the value of
  \<open>random()\<close>, a number in \<open>[0, 1)\<close>: the element at the place where \<open>u * total\<close> falls
  among the cumulative weights, searched up to \<open>hi = n - 1\<close>. \<open>pick_owner\<close> calls it with
  a non-empty population and one positive weight for each element, so the library's
  ValueError branches are not reached.
\<close>

definition choices :: "'a list \<Rightarrow> real list \<Rightarrow> real \<Rightarrow> 'a" where
  "choices population weights u =
     (let cum_weights = accumulate weights;
          total = last cum_weights;
          hi = length population - 1
      in population ! bisect cum_weights (u * total) 0 hi)"

subsection \<open>\<open>pick_owner\<close> (lines 144 to 165)\<close>

text \<open>Lines 152 to 157: the eligible candidates, in roster order.\<close>

definition candidates_for ::
  "string \<Rightarrow> owner_info \<Rightarrow> owner_info option \<Rightarrow> owner_info option \<Rightarrow> int \<Rightarrow> candidate list" where
  "candidates_for acct me kevin william remaining =
     [with_weight 0.55 me]
     @ (case kevin of None \<Rightarrow> [] | Some k \<Rightarrow> [with_weight 0.35 k])
     @ (case william of
          None \<Rightarrow> []
        | Some wl \<Rightarrow>
            if account_id wl = Some acct \<and> remaining > 0 then [with_weight 0.10 wl] else [])"

text \<open>
  The call returns the choice and the new value of \<open>max_william["remaining"]\<close>.
  \<open>(william or {}).get("user_id")\<close> is \<open>None\<close> when William is \<open>None\<close>.
\<close>

definition pick_owner ::
  "string \<Rightarrow> owner_info \<Rightarrow> owner_info option \<Rightarrow> owner_info option \<Rightarrow> int \<Rightarrow> real
     \<Rightarrow> candidate \<times> int" where
  "pick_owner acct me kevin william remaining u =
     (let candidates = candidates_for acct me kevin william remaining;
          weights = map weight candidates;
          total = sum_list weights;
          weights = map (\<lambda>w. w / total) weights;
          choice = choices candidates weights u
      in (choice,
          if user_id choice = (case william of None \<Rightarrow> None | Some wl \<Rightarrow> user_id wl)
          then remaining - 1 else remaining))"

text \<open>
  A run of the script calls \<open>pick_owner\<close> once for each task and subtask (lines 287 and
  307), with the account of the task and the same three owners, and all calls share the
  dict \<open>max_william\<close>. A run is the list of its calls, each an account id and the random
  value drawn; the result is the list of choices and the final counter.
\<close>

fun pick_owners ::
  "owner_info \<Rightarrow> owner_info option \<Rightarrow> owner_info option \<Rightarrow> int \<Rightarrow> (string \<times> real) list
     \<Rightarrow> candidate list \<times> int" where
  "pick_owners me kevin william remaining [] = ([], remaining)"
| "pick_owners me kevin william remaining ((acct, u) # calls) =
     (let picked = pick_owner acct me kevin william remaining u;
          later = pick_owners me kevin william (snd picked) calls
      in (fst picked # fst later, snd later))"

section \<open>Auxiliary notions for the proofs\<close>

text \<open>The number of tasks the partition loop gives to the project at index \<open>i\<close>.\<close>

definition count_at :: "nat \<Rightarrow> nat \<Rightarrow> nat \<Rightarrow> nat" where
  "count_at b r i = b + (if i < r then 1 else 0)"

text \<open>The writes \<open>distribution[project_id] = ...\<close> of the partition loop, in order.\<close>

fun assignments ::
  "nat \<Rightarrow> nat \<Rightarrow> 't list \<Rightarrow> (nat \<times> 'p) list \<Rightarrow> nat \<Rightarrow> ('p \<times> 't list) list" where
  "assignments b r tasks [] idx = []"
| "assignments b r tasks ((i, p) # rest) idx =
     (p, slice tasks idx (idx + count_at b r i))
       # assignments b r tasks rest (idx + count_at b r i)"

definition total_count :: "nat \<Rightarrow> nat \<Rightarrow> (nat \<times> 'p) list \<Rightarrow> nat" where
  "total_count b r ips = sum_list (map (\<lambda>ip. count_at b r (fst ip)) ips)"


text \<open>
  The ids the run appends to the project list are new: neither the org nor the dry-run
  naming hands out the id of the source project. Under this condition the source project
  stands once in the project list, at its head.
\<close>

definition fresh_ids :: "args \<Rightarrow> world \<Rightarrow> bool" where
  "fresh_ids a w \<longleftrightarrow>
     (\<forall>name acct s. create_record_id w name acct s \<noteq> project_id a) \<and>
     (\<forall>n. ''DRYPROJ'' @ show_nat n \<noteq> project_id a)"

definition original_first :: "args \<Rightarrow> world \<Rightarrow> string list \<Rightarrow> bool" where
  "original_first a w ptu \<longleftrightarrow>
     (\<exists>rest. ptu = project_id a # rest \<and> (fresh_ids a w \<longrightarrow> project_id a \<notin> set rest))"


section \<open>Properties of the task distributor\<close>

subsection \<open>The dict, the shuffle and the partition loop\<close>

lemma dict_set_fresh: "k \<notin> fst ` set d \<Longrightarrow> dict_set d k v = d @ [(k, v)]"
  by (induction d) auto


lemma set_dict_set: "set (dict_set d k v) \<subseteq> insert (k, v) (set d)"
  by (induction d) (auto split: if_splits)

lemma keys_dict_set: "fst ` set (dict_set d k v) = insert k (fst ` set d)"
proof (induction d)
  case Nil
  then show ?case by simp
next
  case (Cons kv d)
  obtain k' v' where kv: "kv = (k', v')" by (cases kv)
  show ?case
  proof (cases "k' = k")
    case True
    then show ?thesis by (simp add: kv)
  next
    case False
    then show ?thesis using Cons.IH by (simp add: kv insert_commute)
  qed
qed

lemma partition_loop_Cons:
  "partition_loop b r tasks ((i, p) # rest) idx d =
   partition_loop b r tasks rest (idx + count_at b r i)
     (dict_set d p (slice tasks idx (idx + count_at b r i)))"
  by (simp add: count_at_def Let_def)


lemma partition_loop_distinct:
  "distinct (map snd ips) \<Longrightarrow> snd ` set ips \<inter> fst ` set d = {} \<Longrightarrow>
   partition_loop b r tasks ips idx d = d @ assignments b r tasks ips idx"
proof (induction ips arbitrary: idx d)
  case Nil
  then show ?case by simp
next
  case (Cons ip ips)
  obtain i p where ip: "ip = (i, p)" by (cases ip)
  have fresh: "p \<notin> fst ` set d" using Cons.prems(2) ip by auto
  have disj: "snd ` set ips \<inter> fst ` set (d @ [(p, slice tasks idx (idx + count_at b r i))]) = {}"
    using Cons.prems ip by auto
  have dist: "distinct (map snd ips)" using Cons.prems(1) by simp
  show ?case
    using Cons.IH[OF dist disj]
    by (simp add: ip dict_set_fresh[OF fresh] partition_loop_Cons del: partition_loop.simps(2))
qed

lemma partition_loop_values:
  "(\<forall>ps\<in>set d. Q (snd ps)) \<Longrightarrow> (\<forall>a c. Q (slice tasks a c)) \<Longrightarrow>
   \<forall>ps\<in>set (partition_loop b r tasks ips idx d). Q (snd ps)"
proof (induction ips arbitrary: idx d)
  case Nil
  then show ?case by simp
next
  case (Cons ip ips)
  obtain i p where ip: "ip = (i, p)" by (cases ip)
  have "\<forall>ps\<in>set (dict_set d p (slice tasks idx (idx + count_at b r i))). Q (snd ps)"
    using Cons.prems set_dict_set[of d p "slice tasks idx (idx + count_at b r i)"] by auto
  then show ?case
    using Cons.IH Cons.prems(2) by (simp add: ip partition_loop_Cons del: partition_loop.simps(2))
qed

lemma partition_loop_keys:
  "fst ` set (partition_loop b r tasks ips idx d) = fst ` set d \<union> snd ` set ips"
proof (induction ips arbitrary: idx d)
  case Nil
  then show ?case by simp
next
  case (Cons ip ips)
  obtain i p where ip: "ip = (i, p)" by (cases ip)
  show ?case
    by (simp add: ip partition_loop_Cons Cons.IH keys_dict_set del: partition_loop.simps(2))
qed

lemma map_fst_assignments: "map fst (assignments b r tasks ips idx) = map snd ips"
  by (induction ips arbitrary: idx) auto

lemma slice_append: "slice xs a (a + c) @ slice xs (a + c) (a + c + t) = slice xs a (a + (c + t))"
  by (simp add: slice_def take_add add.commute)

lemma concat_assignments:
  "concat (map snd (assignments b r tasks ips idx)) = slice tasks idx (idx + total_count b r ips)"
proof (induction ips arbitrary: idx)
  case Nil
  then show ?case by (simp add: total_count_def slice_def)
next
  case (Cons ip ips)
  obtain i p where ip: "ip = (i, p)" by (cases ip)
  show ?case
    using slice_append[of tasks idx "count_at b r i" "total_count b r ips"]
    by (simp add: ip Cons.IH total_count_def)
qed

lemma lengths_assignments:
  "idx + total_count b r ips \<le> length tasks \<Longrightarrow>
   map (\<lambda>ps. length (snd ps)) (assignments b r tasks ips idx) = map (\<lambda>ip. count_at b r (fst ip)) ips"
proof (induction ips arbitrary: idx)
  case Nil
  then show ?case by simp
next
  case (Cons ip ips)
  obtain i p where ip: "ip = (i, p)" by (cases ip)
  have "idx + count_at b r i + total_count b r ips \<le> length tasks"
    using Cons.prems by (simp add: ip total_count_def)
  then show ?case
    using Cons.IH[of "idx + count_at b r i"] by (simp add: ip slice_def)
qed

lemma sum_count_at: "sum_list (map (count_at b r) [0..<k]) = k * b + min r k"
  by (induction k) (auto simp: count_at_def)

lemma total_count_enumerate:
  "total_count b r (enumerate_from0 ps) = length ps * b + min r (length ps)"
proof -
  have "map (\<lambda>ip. count_at b r (fst ip)) (zip [0..<length ps] ps) = map (count_at b r) [0..<length ps]"
    by (rule nth_equalityI) simp_all
  then show ?thesis by (simp add: total_count_def enumerate_from0_def sum_count_at)
qed

lemma total_count_div_mod:
  "ps \<noteq> [] \<Longrightarrow> total_count (m div length ps) (m mod length ps) (enumerate_from0 ps) = m"
  by (simp add: total_count_enumerate min_def)

lemma count_larger:
  "length (filter (\<lambda>n. n = Suc b) (map (count_at b r) [0..<k])) = min r k"
  by (induction k) (auto simp: count_at_def)




lemma length_swap: "length (swap xs i j) = length xs"
  by (simp add: swap_def)

lemma mset_swap_list: "i < length xs \<Longrightarrow> j < length xs \<Longrightarrow> mset (swap xs i j) = mset xs"
  unfolding swap_def by (simp add: mset_swap)

lemma mset_shuffle_down: "i < length xs \<Longrightarrow> mset (shuffle_down rnd i xs) = mset xs"
proof (induction i arbitrary: xs)
  case 0
  then show ?case by simp
next
  case (Suc i)
  have "rnd (Suc i) mod (Suc i + 1) < Suc i + 1" by simp
  then have j: "rnd (Suc i) mod (Suc i + 1) < length xs" using Suc.prems by linarith
  show ?case using Suc j by (simp add: mset_swap_list length_swap)
qed

lemma mset_shuffle: "mset (shuffle rnd xs) = mset xs"
  by (cases xs) (simp_all add: shuffle_def mset_shuffle_down)

lemma length_shuffle: "length (shuffle rnd xs) = length xs"
  using arg_cong[OF mset_shuffle[of rnd xs], of size] by simp

lemma shuffle_id: "shuffle id xs = xs"
proof -
  have "shuffle_down id i ys = ys" for i and ys :: "'a list"
    by (induction i arbitrary: ys) (simp_all add: swap_def)
  then show ?thesis by (simp add: shuffle_def)
qed

lemma distribute_distinct:
  assumes "buckets \<noteq> []" "distinct buckets"
  shows "distribute rnd items buckets =
         Inr (assignments (length items div length buckets) (length items mod length buckets)
                (shuffle rnd items) (enumerate_from0 buckets) 0)"
proof -
  have "distinct (map snd (enumerate_from0 buckets))"
    using assms(2) by (simp add: enumerate_from0_def)
  then show ?thesis
    using assms(1) by (simp add: distribute_def Let_def partition_loop_distinct length_shuffle)
qed

lemma distribute_run_id:
  "distribute id items buckets =
     (if buckets = [] then Inl ZeroDivisionError
      else Inr (partition_loop (length items div length buckets) (length items mod length buckets)
                  items (zip [0..<length buckets] buckets) 0 []))"
  by (simp add: distribute_def shuffle_id enumerate_from0_def Let_def)

lemma partition_loop_run:
  "buckets \<noteq> [] \<Longrightarrow>
   distribute rnd items buckets =
     Inr (partition_loop (length items div length buckets) (length items mod length buckets)
            (shuffle rnd items) (enumerate_from0 buckets) 0 [])"
  by (simp add: distribute_def Let_def length_shuffle)



lemma distinct_slices_disjoint:
  "distinct (concat (map snd d)) \<Longrightarrow> distinct (map fst d) \<Longrightarrow>
   (p, ts) \<in> set d \<Longrightarrow> (q, us) \<in> set d \<Longrightarrow> p \<noteq> q \<Longrightarrow> set ts \<inter> set us = {}"
proof (induction d)
  case Nil
  then show ?case by simp
next
  case (Cons kv d)
  then show ?case by (cases kv) (fastforce simp: image_iff)
qed

subsection \<open>The sizes of the slices\<close>

text \<open>
  Claim C1, as amended. For a non-empty list of pairwise distinct buckets (of size \<open>K\<close>)
  and any item list (of size \<open>M\<close>), \<open>distribute\<close> returns a mapping whose keys are the
  buckets in their order, whose slice sizes sum to \<open>M\<close>, in which the bucket at index
  \<open>i\<close> has \<open>M div K + 1\<close> items if \<open>i < M mod K\<close> and \<open>M div K\<close> items otherwise, and
  in which exactly \<open>M mod K\<close> buckets have the larger size.
\<close>

theorem distribute_partition_sizes:
  assumes "buckets \<noteq> []" and "distinct buckets"
  shows "\<exists>d. distribute rnd items buckets = Inr d \<and> map fst d = buckets \<and>
           sum_list (map (\<lambda>ps. length (snd ps)) d) = length items \<and>
           (\<forall>i<length buckets. length (snd (d ! i)) =
              length items div length buckets +
                (if i < length items mod length buckets then 1 else 0)) \<and>
           length (filter (\<lambda>ps. length (snd ps) = length items div length buckets + 1) d) =
             length items mod length buckets"
proof -
  define b where "b = length items div length buckets"
  define r where "r = length items mod length buckets"
  define tasks where "tasks = shuffle rnd items"
  define d where "d = assignments b r tasks (enumerate_from0 buckets) 0"
  have K: "0 < length buckets" using assms(1) by simp
  have tot: "total_count b r (enumerate_from0 buckets) = length tasks"
    using total_count_div_mod[OF assms(1), of "length items"]
    by (simp add: b_def r_def tasks_def length_shuffle)
  have run: "distribute rnd items buckets = Inr d"
    using distribute_distinct[OF assms] by (simp add: d_def b_def r_def tasks_def)
  have keys: "map fst d = buckets"
    by (simp add: d_def map_fst_assignments enumerate_from0_def)
  have lens: "map (\<lambda>ps. length (snd ps)) d = map (count_at b r) [0..<length buckets]"
  proof -
    have "map (\<lambda>ps. length (snd ps)) d
          = map (\<lambda>ip. count_at b r (fst ip)) (enumerate_from0 buckets)"
      unfolding d_def by (rule lengths_assignments) (simp add: tot)
    also have "\<dots> = map (count_at b r) [0..<length buckets]"
      unfolding enumerate_from0_def by (rule nth_equalityI) simp_all
    finally show ?thesis .
  qed
  have rlt: "r < length buckets" using K by (simp add: r_def)
  have total: "sum_list (map (\<lambda>ps. length (snd ps)) d) = length items"
  proof -
    have "sum_list (map (\<lambda>ps. length (snd ps)) d) = length buckets * b + min r (length buckets)"
      by (simp add: lens sum_count_at)
    also have "\<dots> = length items" using rlt by (simp add: b_def r_def min_def)
    finally show ?thesis .
  qed
  have each: "\<forall>i<length buckets. length (snd (d ! i)) = b + (if i < r then 1 else 0)"
  proof (intro allI impI)
    fix i assume i: "i < length buckets"
    have "length d = length buckets" using arg_cong[OF keys, of length] by simp
    then have "map (\<lambda>ps. length (snd ps)) d ! i = length (snd (d ! i))" using i by simp
    then show "length (snd (d ! i)) = b + (if i < r then 1 else 0)"
      using i by (simp add: lens count_at_def)
  qed
  have larger: "length (filter (\<lambda>ps. length (snd ps) = b + 1) d) = r"
  proof -
    have "length (filter (\<lambda>ps. length (snd ps) = b + 1) d)
          = length (filter (\<lambda>n. n = Suc b) (map (\<lambda>ps. length (snd ps)) d))"
      by (simp add: filter_map comp_def)
    also have "\<dots> = min r (length buckets)" by (simp only: lens count_larger)
    finally show ?thesis using rlt by simp
  qed
  show ?thesis
    using run keys total each larger unfolding b_def r_def by blast
qed

text \<open>
  Claim C1 as stated fails when a bucket repeats: the second write to the dict replaces
  the first slice, so two items and the bucket list \<open>[B0, B0]\<close> give a mapping that holds
  one item.
\<close>

theorem distribute_duplicate_bucket_sizes:
  "distribute id [''t1'', ''t2''] [''B0'', ''B0''] = Inr [(''B0'', [''t2''])]"
  by (simp add: distribute_run_id slice_def upt_rec)

text \<open>Five items on two buckets: three and two.\<close>

theorem distribute_partition_sizes_witness:
  "[''B0'', ''B1''] \<noteq> [] \<and> distinct [''B0'', ''B1''] \<and>
   (\<exists>d. distribute id [''t1'', ''t2'', ''t3'', ''t4'', ''t5''] [''B0'', ''B1''] = Inr d \<and>
        d = [(''B0'', [''t1'', ''t2'', ''t3'']), (''B1'', [''t4'', ''t5''])] \<and>
        sum_list (map (\<lambda>ps. length (snd ps)) d) = 5)"
proof -
  have ne: "[''B0'', ''B1''] \<noteq> []" by simp
  have di: "distinct [''B0'', ''B1'']" by simp
  obtain d where d: "distribute id [''t1'', ''t2'', ''t3'', ''t4'', ''t5''] [''B0'', ''B1''] = Inr d"
    and total: "sum_list (map (\<lambda>ps. length (snd ps)) d) = length [''t1'', ''t2'', ''t3'', ''t4'', ''t5'']"
    using distribute_partition_sizes[OF ne di, of id "[''t1'', ''t2'', ''t3'', ''t4'', ''t5'']"]
    by blast
  have "distribute id [''t1'', ''t2'', ''t3'', ''t4'', ''t5''] [''B0'', ''B1'']
        = Inr [(''B0'', [''t1'', ''t2'', ''t3'']), (''B1'', [''t4'', ''t5''])]"
    by code_simp
  then have "d = [(''B0'', [''t1'', ''t2'', ''t3'']), (''B1'', [''t4'', ''t5''])]"
    using d by simp
  then show ?thesis using ne di d total by simp
qed

subsection \<open>The slices cover the items\<close>

text \<open>
  Claim C2, as amended. For a non-empty list of pairwise distinct buckets and a list of
  pairwise distinct items, the slices of the returned mapping together hold exactly the
  items of the input, no item stands under two different buckets, and every item stands
  under exactly one bucket.
\<close>

theorem distribute_disjoint_cover:
  assumes "buckets \<noteq> []" and "distinct buckets" and "distinct items"
  shows "\<exists>d. distribute rnd items buckets = Inr d \<and> map fst d = buckets \<and>
           mset (concat (map snd d)) = mset items \<and>
           (\<forall>p ts q us. (p, ts) \<in> set d \<and> (q, us) \<in> set d \<and> p \<noteq> q
              \<longrightarrow> set ts \<inter> set us = {}) \<and>
           (\<forall>x\<in>set items. \<exists>!p. \<exists>ts. (p, ts) \<in> set d \<and> x \<in> set ts)"
proof -
  define b where "b = length items div length buckets"
  define r where "r = length items mod length buckets"
  define tasks where "tasks = shuffle rnd items"
  define d where "d = assignments b r tasks (enumerate_from0 buckets) 0"
  have run: "distribute rnd items buckets = Inr d"
    using distribute_distinct[OF assms(1,2)] by (simp add: d_def b_def r_def tasks_def)
  have keys: "map fst d = buckets"
    by (simp add: d_def map_fst_assignments enumerate_from0_def)
  have tot: "total_count b r (enumerate_from0 buckets) = length tasks"
    using total_count_div_mod[OF assms(1), of "length items"]
    by (simp add: b_def r_def tasks_def length_shuffle)
  have cat: "concat (map snd d) = tasks"
    by (simp add: d_def concat_assignments tot slice_def)
  have cover: "mset (concat (map snd d)) = mset items"
    by (simp add: cat tasks_def mset_shuffle)
  have dist: "distinct (concat (map snd d))"
    using assms(3) cover by (metis mset_eq_imp_distinct_iff)
  have disj: "\<forall>p ts q us. (p, ts) \<in> set d \<and> (q, us) \<in> set d \<and> p \<noteq> q
                \<longrightarrow> set ts \<inter> set us = {}"
    using distinct_slices_disjoint[OF dist] assms(2) keys by blast
  have one: "\<forall>x\<in>set items. \<exists>!p. \<exists>ts. (p, ts) \<in> set d \<and> x \<in> set ts"
  proof
    fix x assume "x \<in> set items"
    then have "x \<in> set (concat (map snd d))" using cover by (metis mset_eq_setD)
    then obtain p ts where in_d: "(p, ts) \<in> set d" and x: "x \<in> set ts" by auto
    show "\<exists>!p. \<exists>ts. (p, ts) \<in> set d \<and> x \<in> set ts"
    proof (rule ex1I[of _ p])
      show "\<exists>ts. (p, ts) \<in> set d \<and> x \<in> set ts" using in_d x by blast
    next
      fix q assume "\<exists>us. (q, us) \<in> set d \<and> x \<in> set us"
      then obtain us where "(q, us) \<in> set d" "x \<in> set us" by blast
      then show "q = p" using disj in_d x by blast
    qed
  qed
  show ?thesis using run keys cover disj one by blast
qed

text \<open>
  Claim C2 as stated fails when a bucket repeats (item \<open>t1\<close> is under no bucket) and when
  an item repeats (\<open>t1\<close> is under both buckets).
\<close>

theorem distribute_duplicates_not_a_cover:
  "distribute id [''t1'', ''t2'', ''t3''] [''B0'', ''B1'', ''B0'']
     = Inr [(''B0'', [''t3'']), (''B1'', [''t2''])]
   \<and> distribute id [''t1'', ''t1''] [''B0'', ''B1'']
     = Inr [(''B0'', [''t1'']), (''B1'', [''t1''])]"
  by (simp add: distribute_run_id slice_def upt_rec)

text \<open>Three distinct items on two distinct buckets.\<close>

theorem distribute_disjoint_cover_witness:
  "[''B0'', ''B1''] \<noteq> [] \<and> distinct [''B0'', ''B1''] \<and> distinct [''t1'', ''t2'', ''t3''] \<and>
   (\<exists>d. distribute id [''t1'', ''t2'', ''t3''] [''B0'', ''B1''] = Inr d \<and>
        d = [(''B0'', [''t1'', ''t2'']), (''B1'', [''t3''])] \<and>
        mset (concat (map snd d)) = mset [''t1'', ''t2'', ''t3''])"
proof -
  have ne: "[''B0'', ''B1''] \<noteq> []" by simp
  have di: "distinct [''B0'', ''B1'']" by simp
  have dt: "distinct [''t1'', ''t2'', ''t3'']" by simp
  obtain d where d: "distribute id [''t1'', ''t2'', ''t3''] [''B0'', ''B1''] = Inr d"
    and cover: "mset (concat (map snd d)) = mset [''t1'', ''t2'', ''t3'']"
    using distribute_disjoint_cover[OF ne di dt, of id] by blast
  have "distribute id [''t1'', ''t2'', ''t3''] [''B0'', ''B1'']
        = Inr [(''B0'', [''t1'', ''t2'']), (''B1'', [''t3''])]"
    by code_simp
  then have "d = [(''B0'', [''t1'', ''t2'']), (''B1'', [''t3''])]" using d by simp
  then show ?thesis using ne di dt d cover by blast
qed

subsection \<open>The move loop\<close>







subsection \<open>The project list\<close>

lemma create_project_step_keeps_head:
  assumes "fst st = p # rest"
  shows "\<exists>new. fst (create_project_step a w nm acct n st) = p # rest @ [new] \<and>
           (new = ''DRYPROJ'' @ show_nat n \<or> (\<exists>name s. new = create_record_id w name acct s))"
  using assms by (auto simp: create_project_step_def Let_def)

lemma create_project_step_inv:
  assumes "original_first a w (fst st)"
  shows "original_first a w (fst (create_project_step a w nm acct n st))"
proof -
  obtain rest where r: "fst st = project_id a # rest"
      "fresh_ids a w \<longrightarrow> project_id a \<notin> set rest"
    using assms unfolding original_first_def by blast
  obtain new where n: "fst (create_project_step a w nm acct n st) = project_id a # rest @ [new]"
     "new = ''DRYPROJ'' @ show_nat n \<or> (\<exists>name s. new = create_record_id w name acct s)"
    using create_project_step_keeps_head[OF r(1)] by blast
  have "new \<noteq> project_id a" if f: "fresh_ids a w"
  proof (cases "new = ''DRYPROJ'' @ show_nat n")
    case True
    then show ?thesis using f by (simp add: fresh_ids_def)
  next
    case False
    then obtain name s where "new = create_record_id w name acct s" using n(2) by blast
    then show ?thesis using f by (simp add: fresh_ids_def)
  qed
  then show ?thesis unfolding original_first_def using n(1) r(2) by auto
qed

lemma create_needed_inv:
  assumes "original_first a w (fst st)"
  shows "original_first a w (fst (create_needed a w nm acct k st))"
proof -
  have "original_first a w (fst (fold (\<lambda>i. create_project_step a w nm acct (i + 2)) is st))"
    for "is"
    using assms
  proof (induction "is" arbitrary: st)
    case Nil
    then show ?case by simp
  next
    case (Cons i "is")
    show ?case
      using Cons.IH[OF create_project_step_inv[OF Cons.prems]] by simp
  qed
  then show ?thesis by (simp add: create_needed_def)
qed

lemma use_existing_eq:
  "use_existing a ps acc = acc @ filter (\<lambda>i. i \<noteq> project_id a) (map project_Id ps)"
proof -
  have "fold (\<lambda>proj acc. if project_Id proj \<noteq> project_id a then acc @ [project_Id proj] else acc) ps acc
        = acc @ filter (\<lambda>i. i \<noteq> project_id a) (map project_Id ps)"
    by (induction ps arbitrary: acc) simp_all
  then show ?thesis by (simp add: use_existing_def)
qed

lemma create_missing_inv:
  "original_first a w (fst st) \<Longrightarrow> original_first a w (fst (create_missing a w nm acct st))"
proof (induction a w nm acct st rule: create_missing.induct)
  case (1 a w nm acct st)
  show ?case
  proof (cases "int (length (fst st)) < num_projects a")
    case True
    have step: "original_first a w (fst (create_project_step a w nm acct (length (fst st) + 1) st))"
      by (rule create_project_step_inv[OF "1.prems"])
    have "create_missing a w nm acct st
          = create_missing a w nm acct (create_project_step a w nm acct (length (fst st) + 1) st)"
      using True by (subst create_missing.simps) simp
    then show ?thesis using "1.IH"[OF True step] by simp
  next
    case False
    have "create_missing a w nm acct st = st"
      using False by (subst create_missing.simps) simp
    then show ?thesis using "1.prems" by simp
  qed
qed

lemma build_projects_inv: "original_first a w (fst (build_projects a w nm acct))"
proof -
  have start: "original_first a w (fst ([project_id a], [] :: event list))"
    by (simp add: original_first_def)
  have ex: "original_first a w (fst (use_existing a (q_existing_projects w) [project_id a],
                                     [] :: event list))"
    by (simp add: use_existing_eq original_first_def)
  show ?thesis
    unfolding build_projects_def Let_def
    using create_needed_inv[OF start] create_missing_inv[OF ex]
    by simp
qed

lemma build_projects_not_empty: "fst (build_projects a w nm acct) \<noteq> []"
  using build_projects_inv[of a w nm acct] unfolding original_first_def by auto

subsection \<open>Empty inputs\<close>

text \<open>
  Claim C4, as amended. The code has no InvalidInput condition. On an empty item list
  and a non-empty bucket list the partition loop returns normally, with every bucket
  holding the empty slice. Its only failure is the ZeroDivisionError of the division by
  the length of an empty bucket list, and the bucket list \<open>main\<close> builds is never
  empty.
\<close>

theorem no_invalid_input_condition:
  "(buckets \<noteq> [] \<longrightarrow>
      (\<exists>d. distribute rnd ([] :: 't list) buckets = Inr d \<and> fst ` set d = set buckets \<and>
           (\<forall>ps\<in>set d. snd ps = []))) \<and>
   distribute rnd (items :: 't list) ([] :: 'p list) = Inl ZeroDivisionError \<and>
   fst (build_projects a w nm acct) \<noteq> []"
proof -
  have empty: "\<exists>d. distribute rnd ([] :: 't list) buckets = Inr d \<and> fst ` set d = set buckets \<and>
           (\<forall>ps\<in>set d. snd ps = [])" if ne: "buckets \<noteq> []"
  proof -
    define d where "d = partition_loop (0 div length buckets) (0 mod length buckets)
                          (shuffle rnd ([] :: 't list)) (enumerate_from0 buckets) 0 []"
    have run: "distribute rnd ([] :: 't list) buckets = Inr d"
      using partition_loop_run[OF ne, of rnd "[]"] by (simp add: d_def)
    have keys: "fst ` set d = set buckets"
    proof -
      have "map snd (enumerate_from0 buckets) = buckets"
        unfolding enumerate_from0_def by (rule map_snd_zip) simp
      then have "snd ` set (enumerate_from0 buckets) = set buckets"
        by (metis set_map)
      then show ?thesis by (simp add: d_def partition_loop_keys)
    qed
    have sh: "shuffle rnd ([] :: 't list) = []" using length_shuffle[of rnd "[]"] by simp
    have vals: "\<forall>ps\<in>set d. snd ps = []"
      unfolding d_def sh by (rule partition_loop_values) (simp_all add: slice_def)
    show ?thesis using run keys vals by blast
  qed
  have "distribute rnd items ([] :: 'p list) = Inl ZeroDivisionError"
    by (simp add: distribute_def Let_def)
  then show ?thesis using empty build_projects_not_empty by blast
qed

text \<open>Claim C4 as stated fails: no items and one bucket give a mapping, not an error.\<close>

theorem empty_items_is_not_an_error:
  "distribute id ([] :: string list) [''B0''] = Inr [(''B0'', [])]"
  by (simp add: distribute_run_id slice_def upt_rec)

text \<open>No items on two buckets, and one item on no bucket.\<close>

theorem no_invalid_input_condition_witness:
  "[''B0'', ''B1''] \<noteq> [] \<and>
   (\<exists>d. distribute id ([] :: string list) [''B0'', ''B1''] = Inr d \<and>
        fst ` set d = set [''B0'', ''B1''] \<and> d = [(''B0'', []), (''B1'', [])]) \<and>
   distribute id [''t1''] ([] :: string list) = Inl ZeroDivisionError"
proof -
  have ne: "[''B0'', ''B1''] \<noteq> []" by simp
  have all: "([''B0'', ''B1''] \<noteq> [] \<longrightarrow>
      (\<exists>d. distribute id ([] :: string list) [''B0'', ''B1''] = Inr d \<and>
           fst ` set d = set [''B0'', ''B1''] \<and> (\<forall>ps\<in>set d. snd ps = []))) \<and>
      distribute id [''t1''] ([] :: string list) = Inl ZeroDivisionError"
    using no_invalid_input_condition[of "[''B0'', ''B1'']" id "[''t1'']"] by blast
  then obtain d where d: "distribute id ([] :: string list) [''B0'', ''B1''] = Inr d"
    and keys: "fst ` set d = set [''B0'', ''B1'']"
    using ne by blast
  have "distribute id ([] :: string list) [''B0'', ''B1''] = Inr [(''B0'', []), (''B1'', [])]"
    by code_simp
  then have "d = [(''B0'', []), (''B1'', [])]" using d by simp
  then show ?thesis using ne d keys all by blast
qed

text \<open>
  Claim C10. When the project and its account are found and the task query returns no
  task, \<open>main\<close> returns normally, with no event: no project created, no task updated.
\<close>

theorem early_return_no_effects:
  assumes "q_project w \<noteq> []" and "q_account_names w \<noteq> []" and "q_tasks w = []"
  shows "\<exists>rn. main a w = Inr rn \<and> events rn = [] \<and> updates_made rn = 0 \<and>
              projects_to_use rn = [] \<and> distribution rn = []"
  using assms by (simp add: main_def initial_run_def split: list.splits)

text \<open>A project without tasks: the run ends in the initial state.\<close>

theorem early_return_no_effects_witness:
  "q_project \<lparr>q_project = [\<lparr>project_Id = ''P0'', project_Name = ''Main'', project_Account = ''A1''\<rparr>],
      q_account_names = [''Acme''], q_tasks = [], q_existing_projects = [],
      create_record_id = (\<lambda>name acct s. ''NEW''), today = ''20240101'',
      status_draw = id, shuffle_draw = id\<rparr> \<noteq> [] \<and>
   main \<lparr>org = ''dev'', project_id = ''P0'', num_projects = 4, dry_run = False\<rparr>
     \<lparr>q_project = [\<lparr>project_Id = ''P0'', project_Name = ''Main'', project_Account = ''A1''\<rparr>],
      q_account_names = [''Acme''], q_tasks = [], q_existing_projects = [],
      create_record_id = (\<lambda>name acct s. ''NEW''), today = ''20240101'',
      status_draw = id, shuffle_draw = id\<rparr>
     = Inr \<lparr>projects_to_use = [], distribution = [], events = [], updates_made = 0\<rparr>"
proof -
  let ?w = "\<lparr>q_project = [\<lparr>project_Id = ''P0'', project_Name = ''Main'', project_Account = ''A1''\<rparr>],
      q_account_names = [''Acme''], q_tasks = [], q_existing_projects = [],
      create_record_id = (\<lambda>name acct s. ''NEW''), today = ''20240101'',
      status_draw = id, shuffle_draw = id\<rparr>"
  let ?a = "\<lparr>org = ''dev'', project_id = ''P0'', num_projects = 4, dry_run = False\<rparr>"
  have h1: "q_project ?w \<noteq> []" by simp
  have h2: "q_account_names ?w \<noteq> []" by simp
  have h3: "q_tasks ?w = []" by simp
  obtain rn where "main ?a ?w = Inr rn" "events rn = []" "updates_made rn = 0"
      "projects_to_use rn = []" "distribution rn = []"
    using early_return_no_effects[OF h1 h2 h3, of ?a] by blast
  then have "main ?a ?w = Inr \<lparr>projects_to_use = [], distribution = [], events = [], updates_made = 0\<rparr>"
    by (cases rn) simp
  then show ?thesis using h1 by blast
qed

subsection \<open>The source project comes first\<close>




section \<open>Properties of the owner selector\<close>

subsection \<open>The choice is an eligible candidate\<close>

lemma bisect_bounds: "lo \<le> hi \<Longrightarrow> lo \<le> bisect a x lo hi \<and> bisect a x lo hi \<le> hi"
proof (induction a x lo hi rule: bisect.induct)
  case (1 a x lo hi)
  show ?case
  proof (cases "lo < hi")
    case False
    then show ?thesis using "1.prems" by (subst (1 2) bisect.simps) simp
  next
    case True
    define mid where "mid = (lo + hi) div 2"
    have m: "lo \<le> mid" "mid < hi" using True by (simp_all add: mid_def)
    show ?thesis
    proof (cases "x < a ! mid")
      case left: True
      have "bisect a x lo hi = bisect a x lo mid"
        using True left by (subst bisect.simps) (simp add: mid_def Let_def)
      then show ?thesis using "1.IH"(1)[OF True mid_def left m(1)] m by simp
    next
      case right: False
      have "bisect a x lo hi = bisect a x (mid + 1) hi"
        using True right by (subst bisect.simps) (simp add: mid_def Let_def)
      then show ?thesis using "1.IH"(2)[OF True mid_def right] m by simp
    qed
  qed
qed

lemma choices_in_population:
  "population \<noteq> [] \<Longrightarrow> choices population ws u \<in> set population"
proof -
  assume ne: "population \<noteq> []"
  have "bisect (accumulate ws) (u * last (accumulate ws)) 0 (length population - 1)
          \<le> length population - 1"
    using bisect_bounds[of 0 "length population - 1"] by simp
  then have "bisect (accumulate ws) (u * last (accumulate ws)) 0 (length population - 1)
          < length population"
    using ne by (cases population) simp_all
  then show ?thesis by (simp add: choices_def Let_def)
qed

lemma candidates_for_not_empty: "candidates_for acct me kevin william remaining \<noteq> []"
  by (simp add: candidates_for_def)

lemma pick_owner_in_candidates:
  "fst (pick_owner acct me kevin william remaining u)
     \<in> set (candidates_for acct me kevin william remaining)"
  by (simp add: pick_owner_def Let_def choices_in_population candidates_for_not_empty)

lemma candidates_without_william:
  assumes "account_id wl \<noteq> Some acct \<or> remaining \<le> 0"
  shows "candidates_for acct me kevin (Some wl) remaining
         = with_weight 0.55 me # (case kevin of None \<Rightarrow> [] | Some k \<Rightarrow> [with_weight 0.35 k])"
  using assms by (auto simp: candidates_for_def)

lemma weights_differ:
  "with_weight 0.10 wl \<noteq> with_weight 0.55 me" "with_weight 0.10 wl \<noteq> with_weight 0.35 k"
  by (simp_all add: with_weight_def)

lemma william_excluded:
  assumes "account_id wl \<noteq> Some acct \<or> remaining \<le> 0"
  shows "with_weight 0.10 wl \<notin> set (candidates_for acct me kevin (Some wl) remaining)"
  using weights_differ by (simp add: candidates_without_william[OF assms] split: option.splits)

lemma pick_without_william:
  assumes "account_id wl \<noteq> Some acct \<or> remaining \<le> 0"
  shows "fst (pick_owner acct me kevin (Some wl) remaining u) = with_weight 0.55 me \<or>
         (\<exists>k. kevin = Some k \<and> fst (pick_owner acct me kevin (Some wl) remaining u) = with_weight 0.35 k)"
  using pick_owner_in_candidates[of acct me kevin "Some wl" remaining u]
  by (cases kevin) (auto simp: candidates_without_william[OF assms])

subsection \<open>Scope restriction\<close>

text \<open>
  Claim C6. When William's account id differs from the account id of the call, William's
  candidate is not among the eligible candidates and is not returned: the choice is the
  current user's candidate or Kevin's.
\<close>

theorem scope_restriction:
  assumes "account_id wl \<noteq> Some acct"
  shows "with_weight 0.10 wl \<notin> set (candidates_for acct me kevin (Some wl) remaining) \<and>
         fst (pick_owner acct me kevin (Some wl) remaining u) \<noteq> with_weight 0.10 wl \<and>
         (fst (pick_owner acct me kevin (Some wl) remaining u) = with_weight 0.55 me \<or>
          (\<exists>k. kevin = Some k \<and>
               fst (pick_owner acct me kevin (Some wl) remaining u) = with_weight 0.35 k))"
proof -
  have c: "account_id wl \<noteq> Some acct \<or> remaining \<le> 0" using assms by simp
  have "fst (pick_owner acct me kevin (Some wl) remaining u) \<noteq> with_weight 0.10 wl"
    using william_excluded[OF c, of me kevin] pick_owner_in_candidates[of acct me kevin "Some wl" remaining u]
    by metis
  then show ?thesis using william_excluded[OF c] pick_without_william[OF c] by blast
qed

text \<open>William belongs to account 001W; the call is for account 001X.\<close>

theorem scope_restriction_witness:
  "account_id \<lparr>user_id = Some ''005W'', contact_id = Some ''003W'', account_id = Some ''001W''\<rparr>
     \<noteq> Some ''001X'' \<and>
   fst (pick_owner ''001X'' \<lparr>user_id = Some ''005M'', contact_id = None, account_id = None\<rparr> None
          (Some \<lparr>user_id = Some ''005W'', contact_id = Some ''003W'', account_id = Some ''001W''\<rparr>)
          4 (95 / 100))
     = with_weight 0.55 \<lparr>user_id = Some ''005M'', contact_id = None, account_id = None\<rparr>"
proof -
  let ?wl = "\<lparr>user_id = Some ''005W'', contact_id = Some ''003W'', account_id = Some ''001W''\<rparr>"
  let ?me = "\<lparr>user_id = Some ''005M'', contact_id = None, account_id = None\<rparr>"
  have h: "account_id ?wl \<noteq> Some ''001X''" by simp
  show ?thesis
    using h scope_restriction[OF h, of ?me None 4 "95 / 100"] by simp
qed

subsection \<open>The quota\<close>

lemma pick_owner_counter_le: "snd (pick_owner acct me kevin william remaining u) \<le> remaining"
  by (simp add: pick_owner_def Let_def)

lemma pick_owners_counter_le: "snd (pick_owners me kevin william remaining calls) \<le> remaining"
proof (induction calls arbitrary: remaining)
  case Nil
  then show ?case by simp
next
  case (Cons c calls)
  obtain acct u where c: "c = (acct, u)" by (cases c)
  show ?case
    using Cons.IH[of "snd (pick_owner acct me kevin william remaining u)"]
      pick_owner_counter_le[of acct me kevin william remaining u]
    by (simp add: c Let_def)
qed

lemma pick_owners_append:
  "pick_owners me kevin william remaining (xs @ ys) =
     (fst (pick_owners me kevin william remaining xs)
        @ fst (pick_owners me kevin william (snd (pick_owners me kevin william remaining xs)) ys),
      snd (pick_owners me kevin william (snd (pick_owners me kevin william remaining xs)) ys))"
proof (induction xs arbitrary: remaining)
  case Nil
  then show ?case by simp
next
  case (Cons c xs)
  obtain acct u where c: "c = (acct, u)" by (cases c)
  show ?case by (simp add: c Let_def Cons.IH)
qed

lemma length_pick_owners: "length (fst (pick_owners me kevin william remaining calls)) = length calls"
proof (induction calls arbitrary: remaining)
  case Nil
  then show ?case by simp
next
  case (Cons c calls)
  obtain acct u where c: "c = (acct, u)" by (cases c)
  show ?case by (simp add: c Let_def Cons.IH)
qed

lemma exhausted_choices:
  "remaining \<le> 0 \<Longrightarrow>
   \<forall>c\<in>set (fst (pick_owners me kevin (Some wl) remaining calls)).
     c = with_weight 0.55 me \<or> (\<exists>k. kevin = Some k \<and> c = with_weight 0.35 k)"
proof (induction calls arbitrary: remaining)
  case Nil
  then show ?case by simp
next
  case (Cons c calls)
  obtain acct u where c: "c = (acct, u)" by (cases c)
  have le: "snd (pick_owner acct me kevin (Some wl) remaining u) \<le> 0"
    using pick_owner_counter_le[of acct me kevin "Some wl" remaining u] Cons.prems by simp
  have here: "fst (pick_owner acct me kevin (Some wl) remaining u) = with_weight 0.55 me \<or>
         (\<exists>k. kevin = Some k \<and> fst (pick_owner acct me kevin (Some wl) remaining u) = with_weight 0.35 k)"
    using pick_without_william[of wl acct remaining me kevin u] Cons.prems by simp
  show ?case using Cons.IH[OF le] here by (simp add: c Let_def)
qed

text \<open>
  Claim C5. Let the counter be 0 after the calls \<open>before\<close> of a run that started with
  the quota \<open>n\<close>. Then William's candidate is outside the eligible candidates of every
  later call of the run, and no later choice is William's candidate: each is the current
  user's candidate or Kevin's. The weight plays no part.
\<close>

theorem quota_exhaustion:
  assumes "snd (pick_owners me kevin (Some wl) n before) = 0"
  shows "(\<forall>i<length after.
            with_weight 0.10 wl \<notin>
              set (candidates_for (fst (after ! i)) me kevin (Some wl)
                     (snd (pick_owners me kevin (Some wl) n (before @ take i after))))) \<and>
         (\<forall>c\<in>set (drop (length before) (fst (pick_owners me kevin (Some wl) n (before @ after)))).
            c \<noteq> with_weight 0.10 wl \<and>
            (c = with_weight 0.55 me \<or> (\<exists>k. kevin = Some k \<and> c = with_weight 0.35 k)))"
proof -
  have counter: "snd (pick_owners me kevin (Some wl) n (before @ xs)) \<le> 0" for xs
    using pick_owners_counter_le[of me kevin "Some wl" "snd (pick_owners me kevin (Some wl) n before)" xs]
      assms
    by (simp add: pick_owners_append)
  have eligible: "\<forall>i<length after.
            with_weight 0.10 wl \<notin>
              set (candidates_for (fst (after ! i)) me kevin (Some wl)
                     (snd (pick_owners me kevin (Some wl) n (before @ take i after))))"
    using william_excluded counter by blast
  have later: "drop (length before) (fst (pick_owners me kevin (Some wl) n (before @ after)))
               = fst (pick_owners me kevin (Some wl) 0 after)"
    using assms by (simp add: pick_owners_append length_pick_owners)
  have "\<forall>c\<in>set (fst (pick_owners me kevin (Some wl) 0 after)).
          c = with_weight 0.55 me \<or> (\<exists>k. kevin = Some k \<and> c = with_weight 0.35 k)"
    by (rule exhausted_choices) simp
  then have chosen: "\<forall>c\<in>set (drop (length before) (fst (pick_owners me kevin (Some wl) n (before @ after)))).
            c \<noteq> with_weight 0.10 wl \<and>
            (c = with_weight 0.55 me \<or> (\<exists>k. kevin = Some k \<and> c = with_weight 0.35 k))"
    unfolding later using weights_differ by metis
  show ?thesis using eligible chosen by blast
qed

text \<open>A quota of one: the first call picks William, the two later calls cannot.\<close>

theorem quota_exhaustion_witness:
  "snd (pick_owners \<lparr>user_id = Some ''005M'', contact_id = None, account_id = None\<rparr> None
     (Some \<lparr>user_id = Some ''005W'', contact_id = Some ''003W'', account_id = Some ''001W''\<rparr>)
     1 [(''001W'', 95 / 100)]) = 0 \<and>
   fst (pick_owners \<lparr>user_id = Some ''005M'', contact_id = None, account_id = None\<rparr> None
     (Some \<lparr>user_id = Some ''005W'', contact_id = Some ''003W'', account_id = Some ''001W''\<rparr>)
     1 [(''001W'', 95 / 100)])
     = [with_weight 0.10 \<lparr>user_id = Some ''005W'', contact_id = Some ''003W'', account_id = Some ''001W''\<rparr>] \<and>
   with_weight 0.10 \<lparr>user_id = Some ''005W'', contact_id = Some ''003W'', account_id = Some ''001W''\<rparr>
     \<notin> set (drop (length [(''001W'', 95 / 100 :: real)])
          (fst (pick_owners \<lparr>user_id = Some ''005M'', contact_id = None, account_id = None\<rparr> None
             (Some \<lparr>user_id = Some ''005W'', contact_id = Some ''003W'', account_id = Some ''001W''\<rparr>)
             1 ([(''001W'', 95 / 100)] @ [(''001W'', 95 / 100), (''001W'', 99 / 100)]))))"
proof -
  let ?wl = "\<lparr>user_id = Some ''005W'', contact_id = Some ''003W'', account_id = Some ''001W''\<rparr>"
  let ?me = "\<lparr>user_id = Some ''005M'', contact_id = None, account_id = None\<rparr>"
  have v: "pick_owners ?me None (Some ?wl) 1 [(''001W'', 95 / 100)] = ([with_weight 0.10 ?wl], 0)"
    by (simp add: pick_owner_def candidates_for_def choices_def accumulate_def with_weight_def
        Let_def bisect.simps)
  have h: "snd (pick_owners ?me None (Some ?wl) 1 [(''001W'', 95 / 100)]) = 0"
    by (simp only: v snd_conv)
  have "\<forall>c\<in>set (drop (length [(''001W'', 95 / 100 :: real)])
          (fst (pick_owners ?me None (Some ?wl) 1
             ([(''001W'', 95 / 100)] @ [(''001W'', 95 / 100), (''001W'', 99 / 100)])))).
          c \<noteq> with_weight 0.10 ?wl"
    using quota_exhaustion[OF h, of "[(''001W'', 95 / 100), (''001W'', 99 / 100)]"] by blast
  then have "with_weight 0.10 ?wl \<notin> set (drop (length [(''001W'', 95 / 100 :: real)])
          (fst (pick_owners ?me None (Some ?wl) 1
             ([(''001W'', 95 / 100)] @ [(''001W'', 95 / 100), (''001W'', 99 / 100)]))))"
    by blast
  then show ?thesis using h v by (simp only: fst_conv) simp
qed

text \<open>
  Claim C8 fails on the code. The decrement is decided by comparing user ids (line 163).
  When the current user and William are the same user, a call in which William is not
  eligible returns the current user's candidate and still decrements the counter, here
  from 0 to \<open>-1\<close>.
\<close>

theorem shared_user_id_decrements_quota:
  "pick_owner ''001X'' \<lparr>user_id = Some ''005W'', contact_id = None, account_id = None\<rparr> None
     (Some \<lparr>user_id = Some ''005W'', contact_id = Some ''003W'', account_id = Some ''001W''\<rparr>)
     0 (1 / 2)
   = (with_weight 0.55 \<lparr>user_id = Some ''005W'', contact_id = None, account_id = None\<rparr>, - 1)"
  by (simp add: pick_owner_def candidates_for_def choices_def accumulate_def with_weight_def
      Let_def bisect.simps)

lemma user_id_with_weight: "user_id (with_weight x info) = user_id info"
  by (simp add: with_weight_def)

lemma candidates_subset:
  "set (candidates_for acct me kevin (Some wl) remaining)
     \<subseteq> {with_weight 0.55 me} \<union> (case kevin of None \<Rightarrow> {} | Some k \<Rightarrow> {with_weight 0.35 k})
       \<union> (if 0 < remaining then {with_weight 0.10 wl} else {})"
  by (auto simp: candidates_for_def split: option.splits if_splits)

text \<open>
  When the current user and Kevin have user ids other than William's, the counter goes
  down by one exactly in the calls that return William's candidate, and it stays
  non-negative.
\<close>

lemma counter_with_distinct_user_ids:
  assumes "user_id me \<noteq> user_id wl" and "\<forall>k. kevin = Some k \<longrightarrow> user_id k \<noteq> user_id wl"
  shows "snd (pick_owner acct me kevin (Some wl) remaining u) =
           (if fst (pick_owner acct me kevin (Some wl) remaining u) = with_weight 0.10 wl
            then remaining - 1 else remaining)"
    and "0 \<le> remaining \<Longrightarrow> 0 \<le> snd (pick_owner acct me kevin (Some wl) remaining u)"
proof -
  define c where "c = fst (pick_owner acct me kevin (Some wl) remaining u)"
  have mem: "c \<in> {with_weight 0.55 me} \<union> (case kevin of None \<Rightarrow> {} | Some k \<Rightarrow> {with_weight 0.35 k})
       \<union> (if 0 < remaining then {with_weight 0.10 wl} else {})"
    using pick_owner_in_candidates[of acct me kevin "Some wl" remaining u]
      candidates_subset[of acct me kevin wl remaining]
    unfolding c_def by blast
  have snd_eq: "snd (pick_owner acct me kevin (Some wl) remaining u)
        = (if user_id c = user_id wl then remaining - 1 else remaining)"
    by (simp add: pick_owner_def Let_def c_def)
  have iff: "user_id c = user_id wl \<longleftrightarrow> c = with_weight 0.10 wl"
  proof
    assume same: "user_id c = user_id wl"
    show "c = with_weight 0.10 wl"
    proof (rule ccontr)
      assume "c \<noteq> with_weight 0.10 wl"
      then have "c = with_weight 0.55 me \<or> (\<exists>k. kevin = Some k \<and> c = with_weight 0.35 k)"
        using mem by (cases kevin) (auto split: if_splits)
      then show False using same assms by (auto simp: user_id_with_weight)
    qed
  next
    assume "c = with_weight 0.10 wl"
    then show "user_id c = user_id wl" by (simp add: user_id_with_weight)
  qed
  show "snd (pick_owner acct me kevin (Some wl) remaining u) =
           (if fst (pick_owner acct me kevin (Some wl) remaining u) = with_weight 0.10 wl
            then remaining - 1 else remaining)"
    using snd_eq iff by (simp add: c_def)
  show "0 \<le> snd (pick_owner acct me kevin (Some wl) remaining u)" if "0 \<le> remaining"
  proof (cases "c = with_weight 0.10 wl")
    case True
    then have "0 < remaining" using mem weights_differ[of wl] by (cases kevin) (auto split: if_splits)
    then show ?thesis using snd_eq iff True by simp
  next
    case False
    then show ?thesis using snd_eq iff that by simp
  qed
qed

end
